theory Spec2Isabelle
  imports Main "HOL-Library.Multiset" "HOL-Library.Sublist"
begin

section \<open>Data model of \<^verbatim>\<open>main.py\<close>\<close>

text \<open>
  A \<^verbatim>\<open>HuffmanNode\<close> object holds a frequency, two optional children (the dictionary
  \<^verbatim>\<open>_children\<close> with keys 'l' and 'r', \<^verbatim>\<open>None\<close> when absent) and an optional content.
  Python integers are unbounded, hence \<open>int\<close>; a byte read from a \<^verbatim>\<open>bytes\<close> object is an
  \<open>int\<close> as well. Nodes are never mutated after construction, so they are plain values.
\<close>

datatype HuffmanNode =
  HuffmanNode (freq: int) (l_child: "HuffmanNode option") (r_child: "HuffmanNode option")
    (content: "int option")

datatype error =
    IndexError        \<comment> \<open>\<^verbatim>\<open>heap.pop()\<close> on an empty list, inside \<^verbatim>\<open>heapq.heappop\<close>\<close>
  | NotInTree int     \<comment> \<open>the \<^verbatim>\<open>Exception\<close> raised by \<^verbatim>\<open>compress_file\<close>\<close>
  | ValueError        \<comment> \<open>\<^verbatim>\<open>get_next_val\<close>: a byte of the stream that is neither '0' nor '1'\<close>
  | AttributeError    \<comment> \<open>\<^verbatim>\<open>get_next_val\<close>: \<^verbatim>\<open>is_leaf\<close> called on a child that is \<^verbatim>\<open>None\<close>\<close>

text \<open>\<^verbatim>\<open>HuffmanNode.__lt__\<close>: only the frequencies are compared.\<close>

definition HuffmanNode_lt :: "HuffmanNode \<Rightarrow> HuffmanNode \<Rightarrow> bool" where
  "HuffmanNode_lt a b = (freq a < freq b)"

definition is_leaf :: "HuffmanNode \<Rightarrow> bool" where
  "is_leaf n = (l_child n = None \<and> r_child n = None)"

section \<open>The priority queue: Python's \<^verbatim>\<open>heapq\<close> on a list\<close>

text \<open>
  \<^verbatim>\<open>heapq\<close> is the standard library's binary heap stored in a list; it compares items with
  \<^verbatim>\<open><\<close> only. Its functions are written out here as CPython defines them, because the
  shape of the tree depends on the order in which they move equal items. The two sifting
  functions are private to \<^verbatim>\<open>heapq\<close> and are called with positions inside the list only
  (\<^verbatim>\<open>heappush\<close> with the last position, \<^verbatim>\<open>heappop\<close> with position 0 of a non-empty list), and
  every position they compute is a parent or a child below \<open>endpos\<close>; popping from the
  empty list is the one error, and it is a result of \<open>heappop\<close>.

  \<^verbatim>\<open>_siftdown(heap, startpos, pos)\<close>: \<open>newitem\<close> is carried along while parents move down.
\<close>

function siftdown_loop :: "HuffmanNode list \<Rightarrow> nat \<Rightarrow> nat \<Rightarrow> HuffmanNode \<Rightarrow> HuffmanNode list" where
  "siftdown_loop heap startpos pos newitem =
     (if pos > startpos then
        (let parentpos = (pos - 1) div 2;
             parent = heap ! parentpos
         in if HuffmanNode_lt newitem parent
            then siftdown_loop (heap[pos := parent]) startpos parentpos newitem
            else heap[pos := newitem])
      else heap[pos := newitem])"
  by pat_completeness auto
termination
  by (relation "measure (\<lambda>(heap, startpos, pos, newitem). pos)") auto

declare siftdown_loop.simps [simp del]

definition siftdown :: "HuffmanNode list \<Rightarrow> nat \<Rightarrow> nat \<Rightarrow> HuffmanNode list" where
  "siftdown heap startpos pos = siftdown_loop heap startpos pos (heap ! pos)"

text \<open>
  \<^verbatim>\<open>_siftup(heap, pos)\<close>: the smaller child is moved up until a leaf position is reached;
  the loop returns the list and the position that was left free.
\<close>

function siftup_loop :: "HuffmanNode list \<Rightarrow> nat \<Rightarrow> nat \<Rightarrow> HuffmanNode list \<times> nat" where
  "siftup_loop heap endpos pos =
     (let childpos = 2 * pos + 1
      in if childpos < endpos then
           (let rightpos = childpos + 1;
                childpos' = (if rightpos < endpos
                                \<and> \<not> HuffmanNode_lt (heap ! childpos) (heap ! rightpos)
                             then rightpos else childpos)
            in siftup_loop (heap[pos := heap ! childpos']) endpos childpos')
         else (heap, pos))"
  by pat_completeness auto
termination
  by (relation "measure (\<lambda>(heap, endpos, pos). endpos - pos)") (auto simp: Let_def)

declare siftup_loop.simps [simp del]

definition siftup :: "HuffmanNode list \<Rightarrow> nat \<Rightarrow> HuffmanNode list" where
  "siftup heap pos =
     (let endpos = length heap;
          startpos = pos;
          newitem = heap ! pos
      in case siftup_loop heap endpos pos of
           (heap', pos') \<Rightarrow> siftdown (heap'[pos' := newitem]) startpos pos')"

definition heappush :: "HuffmanNode list \<Rightarrow> HuffmanNode \<Rightarrow> HuffmanNode list" where
  "heappush heap item = siftdown (heap @ [item]) 0 (length (heap @ [item]) - 1)"

text \<open>\<^verbatim>\<open>heappop\<close> returns the popped item together with the list as it is afterwards.\<close>

definition heappop :: "HuffmanNode list \<Rightarrow> error + (HuffmanNode \<times> HuffmanNode list)" where
  "heappop heap =
     (if heap = [] then Inl IndexError
      else (let lastelt = last heap;
                heap' = butlast heap
            in if heap' \<noteq> [] then
                 (let returnitem = heap' ! 0
                  in Inr (returnitem, siftup (heap'[0 := lastelt]) 0))
               else Inr (lastelt, heap')))"

section \<open>Building the tree\<close>

lemma length_siftdown_loop [simp]:
  "length (siftdown_loop heap startpos pos newitem) = length heap"
  by (induction heap startpos pos newitem rule: siftdown_loop.induct)
     (subst siftdown_loop.simps, simp add: Let_def)

lemma length_siftdown [simp]: "length (siftdown heap startpos pos) = length heap"
  by (simp add: siftdown_def)

lemma length_siftup_loop:
  "siftup_loop heap endpos pos = (heap', pos') \<Longrightarrow> length heap' = length heap"
proof (induction heap endpos pos arbitrary: heap' pos' rule: siftup_loop.induct)
  case (1 heap endpos pos)
  show ?case
  proof (cases "2 * pos + 1 < endpos")
    case True
    with "1.prems" "1.IH" show ?thesis
      by (subst (asm) siftup_loop.simps) (fastforce simp: Let_def split: if_splits)
  next
    case False
    with "1.prems" show ?thesis
      by (subst (asm) siftup_loop.simps) (simp add: Let_def)
  qed
qed

lemma length_siftup [simp]: "length (siftup heap pos) = length heap"
  by (auto simp: siftup_def Let_def split: prod.splits dest: length_siftup_loop)

lemma length_heappush [simp]: "length (heappush heap item) = Suc (length heap)"
  by (simp add: heappush_def)

lemma heappop_Nil [simp]: "heappop [] = Inl IndexError"
  by (simp add: heappop_def)

lemma heappop_snoc:
  "heappop (xs @ [x]) =
     (if xs = [] then Inr (x, []) else Inr (xs ! 0, siftup (xs[0 := x]) 0))"
  by (simp add: heappop_def Let_def)

lemma length_heappop:
  "heappop heap = Inr (item, heap') \<Longrightarrow> Suc (length heap') = length heap"
  by (cases heap rule: rev_cases) (auto simp: heappop_snoc split: if_splits)

text \<open>
  \<^verbatim>\<open>gen_huffman_tree\<close> works on the caller's list in place; the model returns the root
  together with the list as the caller finds it afterwards.
\<close>

function gen_huffman_tree :: "HuffmanNode list \<Rightarrow> error + (HuffmanNode \<times> HuffmanNode list)" where
  "gen_huffman_tree heap =
     (if length heap \<ge> 2 then
        (case heappop heap of
           Inl e \<Rightarrow> Inl e
         | Inr (node1, heap1) \<Rightarrow>
            (case heappop heap1 of
               Inl e \<Rightarrow> Inl e
             | Inr (node2, heap2) \<Rightarrow>
                 gen_huffman_tree
                   (heappush heap2
                      (HuffmanNode (freq node1 + freq node2) (Some node1) (Some node2) None))))
      else heappop heap)"
  by pat_completeness auto
termination
  by (relation "measure length") (auto dest!: length_heappop)

declare gen_huffman_tree.simps [simp del]

section \<open>Codes and compression\<close>

text \<open>
  \<^verbatim>\<open>get_huffman_code\<close>: depth-first search for a leaf whose content is \<open>val\<close>; the result is
  the pair of the flag and the code, a \<^verbatim>\<open>bytes\<close> object of the characters '0' (48) and '1' (49).
  A child that is \<^verbatim>\<open>None\<close> is skipped, which is written here as a search that finds nothing.
\<close>

fun get_huffman_code :: "int \<Rightarrow> HuffmanNode \<Rightarrow> bool \<times> int list" where
  "get_huffman_code val (HuffmanNode f l r c) =
     (if is_leaf (HuffmanNode f l r c) then (Some val = c, [])
      else
        (case (case l of None \<Rightarrow> (False, []) | Some lt \<Rightarrow> get_huffman_code val lt) of
           (contain_l, code_l) \<Rightarrow>
             if contain_l then (True, 48 # code_l)
             else
               (case (case r of None \<Rightarrow> (False, []) | Some rt \<Rightarrow> get_huffman_code val rt) of
                  (contain_r, code_r) \<Rightarrow>
                    if contain_r then (True, 49 # code_r) else (False, []))))"

text \<open>
  \<^verbatim>\<open>compress_file\<close>: the file is a list of lines, each a list of bytes; the inner loop runs
  over the bytes of a line, the outer one over the lines, and the first byte without a
  code raises.
\<close>

fun compress_line :: "HuffmanNode \<Rightarrow> int list \<Rightarrow> int list \<Rightarrow> error + int list" where
  "compress_line huffman_tree file_cmprssd [] = Inr file_cmprssd"
| "compress_line huffman_tree file_cmprssd (char # line) =
     (case get_huffman_code char huffman_tree of
        (contained', code) \<Rightarrow>
          if \<not> contained' then Inl (NotInTree char)
          else compress_line huffman_tree (file_cmprssd @ code) line)"

fun compress_lines :: "HuffmanNode \<Rightarrow> int list \<Rightarrow> int list list \<Rightarrow> error + int list" where
  "compress_lines huffman_tree file_cmprssd [] = Inr file_cmprssd"
| "compress_lines huffman_tree file_cmprssd (line # file) =
     (case compress_line huffman_tree file_cmprssd line of
        Inl e \<Rightarrow> Inl e
      | Inr file_cmprssd' \<Rightarrow> compress_lines huffman_tree file_cmprssd' file)"

definition compress_file :: "int list list \<Rightarrow> HuffmanNode \<Rightarrow> error + int list" where
  "compress_file file huffman_tree = compress_lines huffman_tree [] file"

section \<open>Counting\<close>

text \<open>
  \<^verbatim>\<open>character_counts\<close> is a dictionary, and the second loop of \<^verbatim>\<open>get_quantitative_heap\<close>
  runs over its keys in insertion order: an association list whose keys are in the order
  of their first occurrence.
\<close>

fun count_char :: "(int \<times> int) list \<Rightarrow> int \<Rightarrow> (int \<times> int) list" where
  "count_char [] char = [(char, 1)]"
| "count_char ((k, n) # character_counts) char =
     (if k = char then (k, n + 1) # character_counts
      else (k, n) # count_char character_counts char)"

definition character_counts :: "int list list \<Rightarrow> (int \<times> int) list" where
  "character_counts file = foldl (\<lambda>counts line. foldl count_char counts line) [] file"

definition get_quantitative_heap :: "int list list \<Rightarrow> HuffmanNode list" where
  "get_quantitative_heap file =
     foldl (\<lambda>counts_heap (char, n). heappush counts_heap (HuffmanNode n None None (Some char)))
       [] (character_counts file)"

section \<open>Decompression\<close>

text \<open>
  \<^verbatim>\<open>get_next_val\<close>: the stream is a list of lines; one step drops the first byte of every
  line. The tree argument is a child that may be \<^verbatim>\<open>None\<close>, on which \<^verbatim>\<open>is_leaf\<close> raises.
\<close>

function get_next_val ::
  "int list list \<Rightarrow> HuffmanNode option \<Rightarrow> error + (int list list \<times> int option)" where
  "get_next_val file huffman_tree =
     (if length file = 0 then Inr ([], None)
      else
        (case huffman_tree of
           None \<Rightarrow> Inl AttributeError
         | Some t \<Rightarrow>
             if is_leaf t then Inr (file, content t)
             else if length (hd file) = 0 then get_next_val (tl file) huffman_tree
             else
               (let bit = hd (hd file) - 48
                in if bit = 0 then get_next_val (map (drop 1) file) (l_child t)
                   else if bit = 1 then get_next_val (map (drop 1) file) (r_child t)
                   else Inl ValueError)))"
  by pat_completeness auto
termination
proof (relation "measure (\<lambda>(lines, t). length lines + sum_list (map length lines))")
  show "wf (measure (\<lambda>(lines :: int list list, t :: HuffmanNode option).
      length lines + sum_list (map length lines)))"
    by simp
next
  fix fl :: "int list list" and huffman_tree :: "HuffmanNode option"
  assume "length fl \<noteq> 0"
  then show "((tl fl, huffman_tree), (fl, huffman_tree))
      \<in> measure (\<lambda>(lines, t). length lines + sum_list (map length lines))"
    by (cases fl) auto
next
  fix fl :: "int list list" and huffman_tree :: "HuffmanNode option" and t :: HuffmanNode
  assume nonempty: "length fl \<noteq> 0" "length (hd fl) \<noteq> 0"
  have less: "sum_list (map length (map (drop 1) fl)) < sum_list (map length fl)"
  proof (cases fl)
    case Nil
    with nonempty show ?thesis by simp
  next
    case (Cons line rest)
    have "sum_list (map length (map (drop 1) rest)) \<le> sum_list (map length rest)"
      by (induction rest) auto
    with Cons nonempty show ?thesis
      by (cases line) auto
  qed
  from less show "((map (drop 1) fl, l_child t), (fl, huffman_tree))
      \<in> measure (\<lambda>(lines, t). length lines + sum_list (map length lines))"
    by simp
  from less show "((map (drop 1) fl, r_child t), (fl, huffman_tree))
      \<in> measure (\<lambda>(lines, t). length lines + sum_list (map length lines))"
    by simp
qed

declare get_next_val.simps [simp del]

text \<open>
  The loop of \<^verbatim>\<open>main\<close> that calls \<^verbatim>\<open>get_next_val\<close> until it returns \<^verbatim>\<open>None\<close>, collecting
  the values. It does not end when the tree is a single leaf and the stream is not empty
  (\<^verbatim>\<open>get_next_val\<close> then returns the stream as it is), hence a partial function: \<open>None\<close>
  is a loop that never returns.
\<close>

partial_function (option) decompress_loop ::
  "HuffmanNode \<Rightarrow> int list list \<Rightarrow> int list \<Rightarrow> (error + int list) option" where
  "decompress_loop huffman_tree lines file_de_cmprssd =
     (case get_next_val lines (Some huffman_tree) of
        Inl e \<Rightarrow> Some (Inl e)
      | Inr (lines', val) \<Rightarrow>
          (case val of
             None \<Rightarrow> Some (Inr file_de_cmprssd)
           | Some v \<Rightarrow> decompress_loop huffman_tree lines' (file_de_cmprssd @ [v])))"

section \<open>The pipeline of \<^verbatim>\<open>main\<close>\<close>

text \<open>
  \<^verbatim>\<open>readlines\<close> of a file opened in binary mode: the bytes are cut after every newline
  (10), which stays at the end of its line.
\<close>

fun splitlines :: "int list \<Rightarrow> int list \<Rightarrow> int list list" where
  "splitlines cur [] = (if cur = [] then [] else [cur])"
| "splitlines cur (b # bs) =
     (if b = 10 then (cur @ [b]) # splitlines [] bs else splitlines (cur @ [b]) bs)"

definition readlines :: "int list \<Rightarrow> int list list" where
  "readlines bs = splitlines [] bs"

text \<open>
  The first half of \<^verbatim>\<open>main\<close>: the tree is built from the counts of the input and the input
  is compressed with it. The second half reads the compressed bytes back and decodes them
  with the tree that is still in memory; the result here is the sequence of the decoded
  values. What \<^verbatim>\<open>main\<close> does with them afterwards (\<^verbatim>\<open>chr\<close>, the replacement of carriage
  return and newline by newline, writing in text mode, \<^verbatim>\<open>files_equal\<close>) is file handling
  around the coder and is not modelled.
\<close>

definition main_compress :: "int list \<Rightarrow> error + (HuffmanNode \<times> int list)" where
  "main_compress S =
     (let lines = readlines S;
          counts_heap = get_quantitative_heap lines
      in case gen_huffman_tree counts_heap of
           Inl e \<Rightarrow> Inl e
         | Inr (HuffmanTree, counts_heap') \<Rightarrow>
             (case compress_file lines HuffmanTree of
                Inl e \<Rightarrow> Inl e
              | Inr file_cmprssd \<Rightarrow> Inr (HuffmanTree, file_cmprssd)))"

definition main_decompress :: "HuffmanNode \<Rightarrow> int list \<Rightarrow> (error + int list) option" where
  "main_decompress HuffmanTree file_cmprssd =
     decompress_loop HuffmanTree (readlines file_cmprssd) []"

section \<open>The heap operations keep the items\<close>

text \<open>
  Sifting only moves items: the list holds the same multiset of nodes before and after.
\<close>

lemma mset_update_swap:
  assumes "i < length xs" "j < length xs"
  shows "mset (xs[i := xs ! j, j := x]) = mset (xs[i := x])"
proof (cases "i = j")
  case True
  then show ?thesis by simp
next
  case False
  with assms show ?thesis
    by (simp add: mset_update nth_list_update)
qed

lemma mset_siftdown_loop:
  "pos < length heap \<Longrightarrow>
     mset (siftdown_loop heap startpos pos newitem) = mset (heap[pos := newitem])"
proof (induction heap startpos pos newitem rule: siftdown_loop.induct)
  case (1 heap startpos pos newitem)
  let ?parentpos = "(pos - 1) div 2"
  show ?case
  proof (cases "pos > startpos \<and> HuffmanNode_lt newitem (heap ! ?parentpos)")
    case True
    then have lt: "?parentpos < length heap" using "1.prems" by auto
    have "mset (siftdown_loop heap startpos pos newitem)
        = mset (siftdown_loop (heap[pos := heap ! ?parentpos]) startpos ?parentpos newitem)"
      using True by (subst siftdown_loop.simps) (simp add: Let_def)
    also have "\<dots> = mset (heap[pos := heap ! ?parentpos, ?parentpos := newitem])"
      using True lt "1.IH" [OF _ refl refl] by simp
    also have "\<dots> = mset (heap[pos := newitem])"
      using "1.prems" lt by (rule mset_update_swap)
    finally show ?thesis .
  next
    case False
    then show ?thesis
      by (subst siftdown_loop.simps) (auto simp: Let_def)
  qed
qed

lemma mset_siftdown:
  "pos < length heap \<Longrightarrow> mset (siftdown heap startpos pos) = mset heap"
  by (simp add: siftdown_def mset_siftdown_loop)

lemma mset_siftup_loop:
  "siftup_loop heap (length heap) pos = (heap', pos') \<Longrightarrow> pos < length heap \<Longrightarrow>
     pos' < length heap \<and> mset (heap'[pos' := x]) = mset (heap[pos := x])"
proof (induction heap "length heap" pos arbitrary: heap' pos' rule: siftup_loop.induct)
  case (1 heap pos)
  define childpos where "childpos = 2 * pos + 1"
  define c where "c = (if childpos + 1 < length heap
      \<and> \<not> HuffmanNode_lt (heap ! childpos) (heap ! (childpos + 1)) then childpos + 1 else childpos)"
  show ?case
  proof (cases "childpos < length heap")
    case True
    then have c: "c < length heap" by (simp add: c_def)
    have "siftup_loop heap (length heap) pos
        = siftup_loop (heap[pos := heap ! c]) (length heap) c"
      using True
      by (simp only: siftup_loop.simps [of heap "length heap" pos] Let_def childpos_def c_def if_True)
    from this [symmetric] "1.prems"(1) have step:
      "siftup_loop (heap[pos := heap ! c]) (length heap) c = (heap', pos')"
      by (rule trans)
    have len: "length heap = length (heap[pos := heap ! c])"
      by simp
    have "pos' < length (heap[pos := heap ! c]) \<and>
        mset (heap'[pos' := x]) = mset (heap[pos := heap ! c, c := x])"
      using step c
      by (intro "1.hyps" [OF childpos_def True refl c_def len]) simp_all
    moreover have "mset (heap[pos := heap ! c, c := x]) = mset (heap[pos := x])"
      using "1.prems"(2) c by (rule mset_update_swap)
    ultimately show ?thesis by simp
  next
    case False
    with "1.prems" show ?thesis
      by (subst (asm) siftup_loop.simps) (simp add: Let_def childpos_def)
  qed
qed

lemma mset_siftup: "pos < length heap \<Longrightarrow> mset (siftup heap pos) = mset heap"
proof -
  assume pos: "pos < length heap"
  obtain heap' pos' where loop: "siftup_loop heap (length heap) pos = (heap', pos')"
    by (cases "siftup_loop heap (length heap) pos")
  from mset_siftup_loop [OF loop pos, of "heap ! pos"]
  have pos': "pos' < length heap" and m: "mset (heap'[pos' := heap ! pos]) = mset heap"
    by simp_all
  have len: "length heap' = length heap"
    using loop by (rule length_siftup_loop)
  have "siftup heap pos = siftdown (heap'[pos' := heap ! pos]) pos pos'"
    by (simp add: siftup_def Let_def loop)
  also have "mset \<dots> = mset (heap'[pos' := heap ! pos])"
    using pos' len by (intro mset_siftdown) simp
  finally show ?thesis using m by simp
qed

lemma mset_heappush: "mset (heappush heap item) = add_mset item (mset heap)"
  by (simp add: heappush_def mset_siftdown)

lemma heappop_single [simp]: "heappop [x] = Inr (x, [])"
  by (simp add: heappop_def)

lemma mset_heappop:
  assumes pop: "heappop heap = Inr (item, heap')"
  shows "mset heap = add_mset item (mset heap')"
proof (cases heap rule: rev_cases)
  case Nil
  with pop show ?thesis by simp
next
  case (snoc xs x)
  show ?thesis
  proof (cases "xs = []")
    case True
    with snoc pop show ?thesis by simp
  next
    case False
    then have 0: "0 < length xs" by simp
    from False pop have item: "item = xs ! 0" and heap': "heap' = siftup (xs[0 := x]) 0"
      unfolding snoc heappop_snoc by simp_all
    have "mset heap' = mset (xs[0 := x])"
      using 0 unfolding heap' by (intro mset_siftup) simp
    also have "\<dots> = add_mset x (mset xs - {#xs ! 0#})"
      using 0 by (rule mset_update)
    finally have "add_mset item (mset heap') = add_mset x (add_mset (xs ! 0) (mset xs - {#xs ! 0#}))"
      unfolding item by simp
    also have "add_mset (xs ! 0) (mset xs - {#xs ! 0#}) = mset xs"
      using 0 by (intro insert_DiffM) simp
    finally show ?thesis unfolding snoc by simp
  qed
qed

lemma heappop_nonempty:
  "heap \<noteq> [] \<Longrightarrow> \<exists>item heap'. heappop heap = Inr (item, heap')"
  by (cases heap rule: rev_cases) (simp_all add: heappop_snoc)

section \<open>The result of the tree builder\<close>

text \<open>
  \<open>merges M t\<close>: the node \<open>t\<close> is what is left of the nodes \<open>M\<close> after merging two of them
  into a new node, again and again, until one node is left. Which two are merged is left
  open here; what follows holds for any choice.
\<close>

inductive merges :: "HuffmanNode multiset \<Rightarrow> HuffmanNode \<Rightarrow> bool" where
  single: "merges {#t#} t"
| merge: "merges (add_mset (HuffmanNode (freq n1 + freq n2) (Some n1) (Some n2) None) M) t
      \<Longrightarrow> merges (add_mset n1 (add_mset n2 M)) t"

lemma heappush_not_Nil: "heappush heap item \<noteq> []"
proof
  assume "heappush heap item = []"
  then have "length (heappush heap item) = length ([] :: HuffmanNode list)"
    by (rule arg_cong)
  then show False by simp
qed

lemma gen_huffman_tree_merges:
  "heap \<noteq> [] \<Longrightarrow> \<exists>t. gen_huffman_tree heap = Inr (t, []) \<and> merges (mset heap) t"
proof (induction heap rule: gen_huffman_tree.induct)
  case (1 heap)
  show ?case
  proof (cases "2 \<le> length heap")
    case True
    from "1.prems" obtain node1 heap1 where pop1: "heappop heap = Inr (node1, heap1)"
      using heappop_nonempty by blast
    from length_heappop [OF pop1] True have "heap1 \<noteq> []" by auto
    then obtain node2 heap2 where pop2: "heappop heap1 = Inr (node2, heap2)"
      using heappop_nonempty by blast
    let ?node = "HuffmanNode (freq node1 + freq node2) (Some node1) (Some node2) None"
    have "heappush heap2 ?node \<noteq> []"
      by (rule heappush_not_Nil)
    with "1.IH" [OF True pop1 refl pop2 refl]
    obtain t where t: "gen_huffman_tree (heappush heap2 ?node) = Inr (t, [])"
      and m: "merges (mset (heappush heap2 ?node)) t"
      by blast
    have "gen_huffman_tree heap = gen_huffman_tree (heappush heap2 ?node)"
      using True pop1 pop2 by (subst gen_huffman_tree.simps) simp
    moreover have "mset heap = add_mset node1 (add_mset node2 (mset heap2))"
      using mset_heappop [OF pop1] mset_heappop [OF pop2] by simp
    moreover have "merges (add_mset node1 (add_mset node2 (mset heap2))) t"
      using m by (simp add: mset_heappush merges.merge)
    ultimately show ?thesis using t by simp
  next
    case False
    moreover from "1.prems" have "length heap \<noteq> 0"
      by simp
    ultimately have "length heap = Suc 0"
      by arith
    then obtain x where "heap = [x]"
      by (auto simp: length_Suc_conv)
    then show ?thesis
      by (subst gen_huffman_tree.simps) (simp add: merges.single)
  qed
qed

lemma merges_freq: "merges M t \<Longrightarrow> freq t = sum_mset (image_mset freq M)"
  by (induction rule: merges.induct) (simp_all add: add.assoc)

section \<open>The heap invariant and the minimal nodes\<close>

text \<open>
  The invariant of \<^verbatim>\<open>heapq\<close>: no item is smaller than its parent, the parent of position
  \<open>i\<close> being position \<open>(i - 1) div 2\<close>. While an item is sifted, one position is free;
  \<open>down_ok h pos\<close> is the invariant with \<open>pos\<close> left out (its children are compared with
  its parent instead), and \<open>hole_ok h pos x\<close> says in addition that \<open>x\<close> may be put above
  the children of \<open>pos\<close>.
\<close>

definition heap_ok :: "HuffmanNode list \<Rightarrow> bool" where
  "heap_ok h = (\<forall>i\<in>{1..<length h}. \<not> HuffmanNode_lt (h ! i) (h ! ((i - 1) div 2)))"

definition down_ok :: "HuffmanNode list \<Rightarrow> nat \<Rightarrow> bool" where
  "down_ok h pos =
     ((\<forall>i\<in>{1..<length h}. i \<noteq> pos \<and> (i - 1) div 2 \<noteq> pos \<longrightarrow>
          freq (h ! ((i - 1) div 2)) \<le> freq (h ! i))
      \<and> (\<forall>i\<in>{1..<length h}. (i - 1) div 2 = pos \<and> 0 < pos \<longrightarrow>
          freq (h ! ((pos - 1) div 2)) \<le> freq (h ! i)))"

definition hole_ok :: "HuffmanNode list \<Rightarrow> nat \<Rightarrow> HuffmanNode \<Rightarrow> bool" where
  "hole_ok h pos x =
     (down_ok h pos \<and> (\<forall>i\<in>{1..<length h}. (i - 1) div 2 = pos \<longrightarrow> freq x \<le> freq (h ! i)))"

lemma heap_okD:
  "heap_ok h \<Longrightarrow> 0 < i \<Longrightarrow> i < length h \<Longrightarrow> freq (h ! ((i - 1) div 2)) \<le> freq (h ! i)"
  unfolding heap_ok_def HuffmanNode_lt_def by (simp add: not_less)

lemma heap_okI:
  "(\<And>i. 0 < i \<Longrightarrow> i < length h \<Longrightarrow> freq (h ! ((i - 1) div 2)) \<le> freq (h ! i)) \<Longrightarrow> heap_ok h"
  unfolding heap_ok_def HuffmanNode_lt_def by (simp add: not_less)

lemma down_okD1:
  "down_ok h pos \<Longrightarrow> 0 < i \<Longrightarrow> i < length h \<Longrightarrow> i \<noteq> pos \<Longrightarrow> (i - 1) div 2 \<noteq> pos \<Longrightarrow>
     freq (h ! ((i - 1) div 2)) \<le> freq (h ! i)"
  unfolding down_ok_def by simp

lemma down_okD2:
  "down_ok h pos \<Longrightarrow> 0 < i \<Longrightarrow> i < length h \<Longrightarrow> (i - 1) div 2 = pos \<Longrightarrow> 0 < pos \<Longrightarrow>
     freq (h ! ((pos - 1) div 2)) \<le> freq (h ! i)"
  unfolding down_ok_def by simp

lemma down_okI:
  assumes "\<And>i. 0 < i \<Longrightarrow> i < length h \<Longrightarrow> i \<noteq> pos \<Longrightarrow> (i - 1) div 2 \<noteq> pos \<Longrightarrow>
      freq (h ! ((i - 1) div 2)) \<le> freq (h ! i)"
    and "\<And>i. 0 < i \<Longrightarrow> i < length h \<Longrightarrow> (i - 1) div 2 = pos \<Longrightarrow> 0 < pos \<Longrightarrow>
      freq (h ! ((pos - 1) div 2)) \<le> freq (h ! i)"
  shows "down_ok h pos"
  unfolding down_ok_def using assms by simp

lemma hole_okD3:
  "hole_ok h pos x \<Longrightarrow> 0 < i \<Longrightarrow> i < length h \<Longrightarrow> (i - 1) div 2 = pos \<Longrightarrow>
     freq x \<le> freq (h ! i)"
  unfolding hole_ok_def by simp

lemma hole_ok_down: "hole_ok h pos x \<Longrightarrow> down_ok h pos"
  unfolding hole_ok_def by simp

lemma hole_okI:
  assumes "down_ok h pos"
    and "\<And>i. 0 < i \<Longrightarrow> i < length h \<Longrightarrow> (i - 1) div 2 = pos \<Longrightarrow> freq x \<le> freq (h ! i)"
  shows "hole_ok h pos x"
  unfolding hole_ok_def using assms by simp

lemma parent_less: "0 < i \<Longrightarrow> (i - 1) div 2 < (i :: nat)"
  by arith

lemma heap_ok_min:
  "heap_ok h \<Longrightarrow> i < length h \<Longrightarrow> freq (h ! 0) \<le> freq (h ! i)"
proof (induction i rule: less_induct)
  case (less i)
  show ?case
  proof (cases "i = 0")
    case True
    then show ?thesis by simp
  next
    case False
    then have "(i - 1) div 2 < i" by (simp add: parent_less)
    moreover from this less.prems(2) have "(i - 1) div 2 < length h" by simp
    ultimately have "freq (h ! 0) \<le> freq (h ! ((i - 1) div 2))"
      using less.IH less.prems(1) by blast
    also have "\<dots> \<le> freq (h ! i)"
      using less.prems False by (intro heap_okD) simp_all
    finally show ?thesis .
  qed
qed

lemma siftdown_step_ok:
  assumes hole: "hole_ok h pos x" and pos: "0 < pos" "pos < length h"
    and lt: "freq x < freq (h ! ((pos - 1) div 2))"
  shows "hole_ok (h[pos := h ! ((pos - 1) div 2)]) ((pos - 1) div 2) x"
proof -
  define pp where "pp = (pos - 1) div 2"
  define h' where "h' = h[pos := h ! pp]"
  have pp: "pp < pos" unfolding pp_def using pos(1) by (rule parent_less)
  have down: "down_ok h pos" using hole by (rule hole_ok_down)
  have len: "length h' = length h" by (simp add: h'_def)
  have at_pos: "h' ! pos = h ! pp" using pos(2) by (simp add: h'_def)
  have other: "h' ! j = h ! j" if "j \<noteq> pos" for j using that by (simp add: h'_def)
  have above: "freq (h ! ((pp - 1) div 2)) \<le> freq (h ! pp)" if "0 < pp"
  proof (rule down_okD1 [OF down that])
    show "pp < length h" using pp pos(2) by simp
    show "pp \<noteq> pos" using pp by simp
    show "(pp - 1) div 2 \<noteq> pos" using parent_less [OF that] pp by simp
  qed
  have "hole_ok h' pp x"
  proof (rule hole_okI, rule down_okI)
    fix i assume i: "0 < i" "i < length h'" "i \<noteq> pp" "(i - 1) div 2 \<noteq> pp"
    then have ipos: "i \<noteq> pos" by (auto simp: pp_def)
    show "freq (h' ! ((i - 1) div 2)) \<le> freq (h' ! i)"
    proof (cases "(i - 1) div 2 = pos")
      case True
      have "freq (h ! ((pos - 1) div 2)) \<le> freq (h ! i)"
        using down i(1) _ True pos(1) by (rule down_okD2) (use i(2) len in simp)
      then show ?thesis
        using True at_pos other [OF ipos] by (simp add: pp_def)
    next
      case False
      have "freq (h ! ((i - 1) div 2)) \<le> freq (h ! i)"
        using down i(1) _ ipos False by (rule down_okD1) (use i(2) len in simp)
      then show ?thesis
        using other [OF ipos] other [OF False] by simp
    qed
  next
    fix i assume i: "0 < i" "i < length h'" "(i - 1) div 2 = pp" "0 < pp"
    have "(pp - 1) div 2 \<noteq> pos" using parent_less [OF i(4)] pp by simp
    then have grand: "h' ! ((pp - 1) div 2) = h ! ((pp - 1) div 2)" by (rule other)
    show "freq (h' ! ((pp - 1) div 2)) \<le> freq (h' ! i)"
    proof (cases "i = pos")
      case True
      then show ?thesis using above [OF i(4)] at_pos grand by simp
    next
      case False
      have "freq (h ! ((i - 1) div 2)) \<le> freq (h ! i)"
        using down i(1) _ False by (rule down_okD1) (use i(2,3) len pp in simp_all)
      then show ?thesis
        using above [OF i(4)] i(3) other [OF False] grand by simp
    qed
  next
    fix i assume i: "0 < i" "i < length h'" "(i - 1) div 2 = pp"
    show "freq x \<le> freq (h' ! i)"
    proof (cases "i = pos")
      case True
      then show ?thesis using lt at_pos by (simp add: pp_def)
    next
      case False
      have "freq (h ! ((i - 1) div 2)) \<le> freq (h ! i)"
        using down i(1) _ False by (rule down_okD1) (use i(2,3) len pp in simp_all)
      then show ?thesis
        using lt i(3) other [OF False] by (simp add: pp_def)
    qed
  qed
  then show ?thesis by (simp add: h'_def pp_def)
qed

lemma siftdown_place_ok:
  assumes hole: "hole_ok h pos x" and pos: "pos < length h"
    and ge: "0 < pos \<Longrightarrow> freq (h ! ((pos - 1) div 2)) \<le> freq x"
  shows "heap_ok (h[pos := x])"
proof (rule heap_okI)
  fix i assume i: "0 < i" "i < length (h[pos := x])"
  have down: "down_ok h pos" using hole by (rule hole_ok_down)
  show "freq (h[pos := x] ! ((i - 1) div 2)) \<le> freq (h[pos := x] ! i)"
  proof (cases "i = pos")
    case True
    then have "(i - 1) div 2 \<noteq> pos" using parent_less [OF i(1)] by simp
    then show ?thesis using True ge i pos by simp
  next
    case False
    show ?thesis
    proof (cases "(i - 1) div 2 = pos")
      case True
      have "freq x \<le> freq (h ! i)"
        using hole i(1) _ True by (rule hole_okD3) (use i(2) in simp)
      then show ?thesis using True False pos by simp
    next
      case False2: False
      have "freq (h ! ((i - 1) div 2)) \<le> freq (h ! i)"
        using down i(1) _ False False2 by (rule down_okD1) (use i(2) in simp)
      then show ?thesis using False False2 by simp
    qed
  qed
qed

lemma siftdown_loop_ok:
  "pos < length h \<Longrightarrow> hole_ok h pos x \<Longrightarrow> heap_ok (siftdown_loop h 0 pos x)"
proof (induction h "0 :: nat" pos x rule: siftdown_loop.induct)
  case (1 heap pos newitem)
  let ?pp = "(pos - 1) div 2"
  show ?case
  proof (cases "0 < pos \<and> HuffmanNode_lt newitem (heap ! ?pp)")
    case True
    then have pp: "?pp < pos" using parent_less [of pos] by blast
    have "hole_ok (heap[pos := heap ! ?pp]) ?pp newitem"
      using "1.prems"(2) _ "1.prems"(1)
      by (rule siftdown_step_ok) (use True in \<open>simp_all add: HuffmanNode_lt_def\<close>)
    then have "heap_ok (siftdown_loop (heap[pos := heap ! ?pp]) 0 ?pp newitem)"
      using True pp "1.prems"(1) by (intro "1.hyps" [OF _ refl refl]) simp_all
    then show ?thesis
      using True by (subst siftdown_loop.simps) (simp add: Let_def)
  next
    case False
    have "heap_ok (heap[pos := newitem])"
      using "1.prems"(2,1)
      by (rule siftdown_place_ok) (use False in \<open>simp add: HuffmanNode_lt_def not_less\<close>)
    then show ?thesis
      using False by (subst siftdown_loop.simps) (auto simp: Let_def)
  qed
qed

lemma down_ok_update:
  assumes "down_ok h pos"
  shows "down_ok (h[pos := y]) pos"
proof (rule down_okI)
  fix i assume i: "0 < i" "i < length (h[pos := y])" "i \<noteq> pos" "(i - 1) div 2 \<noteq> pos"
  have "freq (h ! ((i - 1) div 2)) \<le> freq (h ! i)"
    using assms i(1) _ i(3,4) by (rule down_okD1) (use i(2) in simp)
  then show "freq (h[pos := y] ! ((i - 1) div 2)) \<le> freq (h[pos := y] ! i)"
    using i(3,4) by simp
next
  fix i assume i: "0 < i" "i < length (h[pos := y])" "(i - 1) div 2 = pos" "0 < pos"
  have "i \<noteq> pos" using parent_less [OF i(1)] i(3) by simp
  moreover have "(pos - 1) div 2 \<noteq> pos" using parent_less [OF i(4)] by simp
  moreover have "freq (h ! ((pos - 1) div 2)) \<le> freq (h ! i)"
    using assms i(1) _ i(3,4) by (rule down_okD2) (use i(2) in simp)
  ultimately show "freq (h[pos := y] ! ((pos - 1) div 2)) \<le> freq (h[pos := y] ! i)"
    by simp
qed

lemma heap_ok_heappush:
  assumes "heap_ok h"
  shows "heap_ok (heappush h x)"
proof -
  let ?n = "length h"
  have "hole_ok (h @ [x]) ?n x"
  proof (rule hole_okI, rule down_okI)
    fix i assume i: "0 < i" "i < length (h @ [x])" "i \<noteq> ?n" "(i - 1) div 2 \<noteq> ?n"
    then have "i < ?n" by simp
    moreover from this have "(i - 1) div 2 < ?n" using parent_less [OF i(1)] by simp
    ultimately show "freq ((h @ [x]) ! ((i - 1) div 2)) \<le> freq ((h @ [x]) ! i)"
      using heap_okD [OF assms i(1)] by (simp add: nth_append)
  next
    fix i assume i: "0 < i" "i < length (h @ [x])" "(i - 1) div 2 = ?n"
    then have False using parent_less [OF i(1)] by simp
    then show "freq ((h @ [x]) ! ((?n - 1) div 2)) \<le> freq ((h @ [x]) ! i)" ..
  next
    fix i assume i: "0 < i" "i < length (h @ [x])" "(i - 1) div 2 = ?n"
    then have False using parent_less [OF i(1)] by simp
    then show "freq x \<le> freq ((h @ [x]) ! i)" ..
  qed
  then have "heap_ok (siftdown_loop (h @ [x]) 0 ?n x)"
    by (intro siftdown_loop_ok) simp_all
  then show ?thesis
    by (simp add: heappush_def siftdown_def)
qed

lemma child_cases: "0 < i \<Longrightarrow> (i - 1) div 2 = pos \<Longrightarrow> i = 2 * pos + 1 \<or> i = 2 * pos + 2"
  for i pos :: nat
  by arith

lemma siftup_step_ok:
  assumes down: "down_ok h pos" and left: "2 * pos + 1 < length h"
    and c: "c = (if 2 * pos + 1 + 1 < length h
                    \<and> \<not> HuffmanNode_lt (h ! (2 * pos + 1)) (h ! (2 * pos + 1 + 1))
                 then 2 * pos + 1 + 1 else 2 * pos + 1)"
  shows "down_ok (h[pos := h ! c]) c"
proof -
  define h' where "h' = h[pos := h ! c]"
  have c_cases: "c = 2 * pos + 1 \<or> c = 2 * pos + 2" using c by (simp split: if_splits)
  then have c_parent: "(c - 1) div 2 = pos" and c_pos: "0 < c" "pos < c" by auto
  have c_len: "c < length h" using c left by (simp split: if_splits)
  have pos_len: "pos < length h" using left by simp
  have at_pos: "h' ! pos = h ! c" using pos_len by (simp add: h'_def)
  have other: "h' ! j = h ! j" if "j \<noteq> pos" for j using that by (simp add: h'_def)
  have smaller: "freq (h ! c) \<le> freq (h ! i)"
    if "i = 2 * pos + 1 \<or> i = 2 * pos + 2" "i < length h" for i
    using that c by (auto simp: HuffmanNode_lt_def not_less split: if_splits)
  have "down_ok h' c"
  proof (rule down_okI)
    fix i assume i: "0 < i" "i < length h'" "i \<noteq> c" "(i - 1) div 2 \<noteq> c"
    then have i_len: "i < length h" by (simp add: h'_def)
    show "freq (h' ! ((i - 1) div 2)) \<le> freq (h' ! i)"
    proof (cases "i = pos")
      case True
      then have "0 < pos" using i(1) by simp
      with down c_pos(1) c_len c_parent have "freq (h ! ((pos - 1) div 2)) \<le> freq (h ! c)"
        by (rule down_okD2)
      moreover have "(pos - 1) div 2 \<noteq> pos" using parent_less [OF \<open>0 < pos\<close>] by simp
      ultimately show ?thesis using True at_pos other by simp
    next
      case False
      show ?thesis
      proof (cases "(i - 1) div 2 = pos")
        case True
        from child_cases [OF i(1) True] i_len have "freq (h ! c) \<le> freq (h ! i)"
          by (rule smaller)
        then show ?thesis using True at_pos other [OF False] by simp
      next
        case False2: False
        from down i(1) i_len False False2 have "freq (h ! ((i - 1) div 2)) \<le> freq (h ! i)"
          by (rule down_okD1)
        then show ?thesis using other [OF False] other [OF False2] by simp
      qed
    qed
  next
    fix i assume i: "0 < i" "i < length h'" "(i - 1) div 2 = c" "0 < c"
    then have i_len: "i < length h" by (simp add: h'_def)
    have "c < i" using parent_less [OF i(1)] i(3) by simp
    then have i_pos: "i \<noteq> pos" using c_pos(2) by simp
    moreover have "(i - 1) div 2 \<noteq> pos" using i(3) c_pos(2) by simp
    ultimately have "freq (h ! ((i - 1) div 2)) \<le> freq (h ! i)"
      using down i(1) i_len by (intro down_okD1)
    then show "freq (h' ! ((c - 1) div 2)) \<le> freq (h' ! i)"
      using c_parent at_pos other [OF i_pos] i(3) by simp
  qed
  then show ?thesis by (simp add: h'_def)
qed

lemma siftup_loop_ok:
  "siftup_loop h (length h) pos = (h', pos') \<Longrightarrow> pos < length h \<Longrightarrow> down_ok h pos \<Longrightarrow>
     down_ok h' pos' \<and> pos' < length h \<and> \<not> 2 * pos' + 1 < length h"
proof (induction h "length h" pos arbitrary: h' pos' rule: siftup_loop.induct)
  case (1 heap pos)
  define childpos where "childpos = 2 * pos + 1"
  define c where "c = (if childpos + 1 < length heap
      \<and> \<not> HuffmanNode_lt (heap ! childpos) (heap ! (childpos + 1)) then childpos + 1 else childpos)"
  show ?case
  proof (cases "childpos < length heap")
    case True
    then have c: "c < length heap" by (simp add: c_def)
    have "siftup_loop heap (length heap) pos
        = siftup_loop (heap[pos := heap ! c]) (length heap) c"
      using True
      by (simp only: siftup_loop.simps [of heap "length heap" pos] Let_def childpos_def c_def if_True)
    from this [symmetric] "1.prems"(1) have step:
      "siftup_loop (heap[pos := heap ! c]) (length heap) c = (h', pos')"
      by (rule trans)
    have len: "length heap = length (heap[pos := heap ! c])"
      by simp
    have "down_ok (heap[pos := heap ! c]) c"
      using "1.prems"(3) True unfolding childpos_def
      by (rule siftup_step_ok) (simp add: c_def childpos_def)
    then have "down_ok h' pos' \<and> pos' < length (heap[pos := heap ! c])
        \<and> \<not> 2 * pos' + 1 < length (heap[pos := heap ! c])"
      using step c
      by (intro "1.hyps" [OF childpos_def True refl c_def len]) simp_all
    then show ?thesis by simp
  next
    case False
    with "1.prems" show ?thesis
      by (subst (asm) siftup_loop.simps) (simp add: Let_def childpos_def)
  qed
qed

lemma heap_ok_butlast: "heap_ok (xs @ [x]) \<Longrightarrow> heap_ok xs"
proof (rule heap_okI)
  fix i assume ok: "heap_ok (xs @ [x])" and i: "0 < i" "i < length xs"
  then have "(i - 1) div 2 < length xs" using parent_less [OF i(1)] by simp
  moreover have "freq ((xs @ [x]) ! ((i - 1) div 2)) \<le> freq ((xs @ [x]) ! i)"
    using ok i by (intro heap_okD) simp_all
  ultimately show "freq (xs ! ((i - 1) div 2)) \<le> freq (xs ! i)"
    using i(2) by (simp add: nth_append)
qed

lemma heap_ok_siftup:
  assumes ok: "heap_ok xs" and nonempty: "xs \<noteq> []"
  shows "heap_ok (siftup (xs[0 := x]) 0)"
proof -
  let ?h = "xs[0 := x]"
  have len0: "0 < length ?h" using nonempty by simp
  have down: "down_ok ?h 0"
  proof (rule down_okI)
    fix i assume i: "0 < i" "i < length ?h" "i \<noteq> 0" "(i - 1) div 2 \<noteq> 0"
    then show "freq (?h ! ((i - 1) div 2)) \<le> freq (?h ! i)"
      using heap_okD [OF ok, of i] by simp
  next
    fix i :: nat assume "(0 :: nat) < 0"
    then show "freq (?h ! ((0 - 1) div 2)) \<le> freq (?h ! i)" by simp
  qed
  obtain h' pos' where loop: "siftup_loop ?h (length ?h) 0 = (h', pos')"
    by (cases "siftup_loop ?h (length ?h) 0")
  have len: "length h' = length ?h"
    using loop by (rule length_siftup_loop)
  from siftup_loop_ok [OF loop len0 down]
  have down': "down_ok h' pos'" and pos': "pos' < length h'"
    and leaf: "\<not> 2 * pos' + 1 < length h'"
    using len by simp_all
  have "hole_ok (h'[pos' := x]) pos' x"
  proof (rule hole_okI)
    show "down_ok (h'[pos' := x]) pos'"
      using down' by (rule down_ok_update)
  next
    fix i assume i: "0 < i" "i < length (h'[pos' := x])" "(i - 1) div 2 = pos'"
    from child_cases [OF i(1,3)] i(2) leaf have False by auto
    then show "freq x \<le> freq (h'[pos' := x] ! i)" ..
  qed
  then have "heap_ok (siftdown_loop (h'[pos' := x]) 0 pos' x)"
    using pos' by (intro siftdown_loop_ok) simp_all
  moreover have "siftup ?h 0 = siftdown_loop (h'[pos' := x]) 0 pos' x"
    using loop pos' nonempty by (simp add: siftup_def siftdown_def Let_def)
  ultimately show ?thesis by simp
qed

lemma heap_ok_heappop:
  assumes ok: "heap_ok heap" and pop: "heappop heap = Inr (item, heap')"
  shows "heap_ok heap'" and "\<forall>n\<in>set heap. freq item \<le> freq n"
proof -
  from pop obtain xs x where heap: "heap = xs @ [x]"
    by (cases heap rule: rev_cases) auto
  have item: "item = heap ! 0"
    using pop heap by (cases "xs = []") (simp_all add: heappop_snoc nth_append)
  show "\<forall>n\<in>set heap. freq item \<le> freq n"
    using heap_ok_min [OF ok] item by (auto simp: in_set_conv_nth)
  show "heap_ok heap'"
  proof (cases "xs = []")
    case True
    with pop heap have "heap' = []" by simp
    then show ?thesis by (simp add: heap_ok_def)
  next
    case False
    with pop heap have "heap' = siftup (xs[0 := x]) 0"
      by (simp add: heappop_snoc)
    moreover have "heap_ok xs"
      using ok unfolding heap by (rule heap_ok_butlast)
    ultimately show ?thesis
      using False by (simp add: heap_ok_siftup)
  qed
qed



text \<open>
  \<open>min_merges M t\<close>: as \<open>merges\<close>, but the two nodes merged are, each time, a node of
  minimal frequency and a node of minimal frequency among the others, the first as the
  left child.
\<close>

inductive min_merges :: "HuffmanNode multiset \<Rightarrow> HuffmanNode \<Rightarrow> bool" where
  single: "min_merges {#t#} t"
| merge: "\<forall>n\<in>#add_mset n2 M. freq n1 \<le> freq n \<Longrightarrow> \<forall>n\<in>#M. freq n2 \<le> freq n \<Longrightarrow>
      min_merges (add_mset (HuffmanNode (freq n1 + freq n2) (Some n1) (Some n2) None) M) t
      \<Longrightarrow> min_merges (add_mset n1 (add_mset n2 M)) t"

lemma gen_huffman_tree_min_merges:
  "heap \<noteq> [] \<Longrightarrow> heap_ok heap \<Longrightarrow>
     \<exists>t. gen_huffman_tree heap = Inr (t, []) \<and> min_merges (mset heap) t"
proof (induction heap rule: gen_huffman_tree.induct)
  case (1 heap)
  show ?case
  proof (cases "2 \<le> length heap")
    case True
    from "1.prems" obtain node1 heap1 where pop1: "heappop heap = Inr (node1, heap1)"
      using heappop_nonempty by blast
    from length_heappop [OF pop1] True have "heap1 \<noteq> []" by auto
    then obtain node2 heap2 where pop2: "heappop heap1 = Inr (node2, heap2)"
      using heappop_nonempty by blast
    let ?node = "HuffmanNode (freq node1 + freq node2) (Some node1) (Some node2) None"
    have ok1: "heap_ok heap1" and min1: "\<forall>n\<in>set heap. freq node1 \<le> freq n"
      using heap_ok_heappop [OF "1.prems"(2) pop1] by simp_all
    have ok2: "heap_ok heap2" and min2: "\<forall>n\<in>set heap1. freq node2 \<le> freq n"
      using heap_ok_heappop [OF ok1 pop2] by simp_all
    have m1: "mset heap = add_mset node1 (mset heap1)" using pop1 by (rule mset_heappop)
    have m2: "mset heap1 = add_mset node2 (mset heap2)" using pop2 by (rule mset_heappop)
    have "heappush heap2 ?node \<noteq> []"
      by (rule heappush_not_Nil)
    moreover have "heap_ok (heappush heap2 ?node)"
      using ok2 by (rule heap_ok_heappush)
    ultimately obtain t where t: "gen_huffman_tree (heappush heap2 ?node) = Inr (t, [])"
      and m: "min_merges (mset (heappush heap2 ?node)) t"
      using "1.IH" [OF True pop1 refl pop2 refl] by blast
    have "gen_huffman_tree heap = gen_huffman_tree (heappush heap2 ?node)"
      using True pop1 pop2 by (subst gen_huffman_tree.simps) simp
    moreover have "min_merges (add_mset node1 (add_mset node2 (mset heap2))) t"
    proof (rule min_merges.merge)
      have "set_mset (mset heap1) \<subseteq> set_mset (mset heap)"
        unfolding m1 by auto
      then show "\<forall>n\<in>#add_mset node2 (mset heap2). freq node1 \<le> freq n"
        using min1 unfolding m2 [symmetric] by auto
      have "set_mset (mset heap2) \<subseteq> set_mset (mset heap1)"
        unfolding m2 by auto
      then show "\<forall>n\<in>#mset heap2. freq node2 \<le> freq n"
        using min2 by auto
      show "min_merges (add_mset ?node (mset heap2)) t"
        using m by (simp add: mset_heappush)
    qed
    ultimately show ?thesis using t m1 m2 by simp
  next
    case False
    moreover from "1.prems" have "length heap \<noteq> 0"
      by simp
    ultimately have "length heap = Suc 0"
      by arith
    then obtain x where "heap = [x]"
      by (auto simp: length_Suc_conv)
    then show ?thesis
      by (subst gen_huffman_tree.simps) (simp add: min_merges.single)
  qed
qed

section \<open>Trees, their symbols and their codes\<close>

text \<open>
  The nodes the program constructs are of two kinds only: a leaf with a content and no
  child (\<^verbatim>\<open>get_quantitative_heap\<close>), and an inner node with both children and no content
  (\<^verbatim>\<open>gen_huffman_tree\<close>). \<open>symbols\<close> lists the contents of the leaves from left to right.
\<close>

inductive wf_tree :: "HuffmanNode \<Rightarrow> bool" where
  leaf: "wf_tree (HuffmanNode f None None (Some c))"
| node: "wf_tree lt \<Longrightarrow> wf_tree rt \<Longrightarrow> wf_tree (HuffmanNode f (Some lt) (Some rt) None)"

fun symbols :: "HuffmanNode \<Rightarrow> int list" where
  "symbols (HuffmanNode f l r c) =
     (if l = None \<and> r = None then (case c of None \<Rightarrow> [] | Some v \<Rightarrow> [v])
      else (case l of None \<Rightarrow> [] | Some lt \<Rightarrow> symbols lt)
         @ (case r of None \<Rightarrow> [] | Some rt \<Rightarrow> symbols rt))"

lemma get_huffman_code_leaf [simp]:
  "get_huffman_code val (HuffmanNode f None None c) = (Some val = c, [])"
  by (simp add: is_leaf_def)

lemma get_huffman_code_node [simp]:
  "get_huffman_code val (HuffmanNode f (Some lt) (Some rt) c) =
     (if fst (get_huffman_code val lt) then (True, 48 # snd (get_huffman_code val lt))
      else if fst (get_huffman_code val rt) then (True, 49 # snd (get_huffman_code val rt))
      else (False, []))"
  by (simp add: is_leaf_def split: prod.splits)

declare get_huffman_code.simps [simp del]

lemma contained_iff:
  "wf_tree t \<Longrightarrow> fst (get_huffman_code val t) = (val \<in> set (symbols t))"
  by (induction rule: wf_tree.induct) auto

lemma symbols_nonempty: "wf_tree t \<Longrightarrow> symbols t \<noteq> []"
  by (induction rule: wf_tree.induct) auto

lemma code_nonempty:
  "wf_tree t \<Longrightarrow> \<not> is_leaf t \<Longrightarrow> val \<in> set (symbols t) \<Longrightarrow> snd (get_huffman_code val t) \<noteq> []"
  by (induction rule: wf_tree.induct) (auto simp: is_leaf_def contained_iff)

lemma code_bits:
  "wf_tree t \<Longrightarrow> set (snd (get_huffman_code val t)) \<subseteq> {48, 49}"
  by (induction rule: wf_tree.induct) auto

lemma prefix_free:
  "wf_tree t \<Longrightarrow> a \<in> set (symbols t) \<Longrightarrow> b \<in> set (symbols t) \<Longrightarrow> a \<noteq> b \<Longrightarrow>
     \<not> prefix (snd (get_huffman_code a t)) (snd (get_huffman_code b t))"
proof (induction rule: wf_tree.induct)
  case (leaf f c)
  then show ?case by simp
next
  case (node lt rt f)
  then show ?case
    by (auto simp: contained_iff)
qed

lemma merges_wf: "merges M t \<Longrightarrow> \<forall>n\<in>#M. wf_tree n \<Longrightarrow> wf_tree t"
  by (induction rule: merges.induct) (auto intro: wf_tree.node)

lemma merges_symbols:
  "merges M t \<Longrightarrow> mset (symbols t) = (\<Sum>n\<in>#M. mset (symbols n))"
  by (induction rule: merges.induct) simp_all

lemma merges_not_leaf:
  "merges M t \<Longrightarrow> 2 \<le> size M \<or> (\<forall>n\<in>#M. \<not> is_leaf n) \<Longrightarrow> \<not> is_leaf t"
proof (induction rule: merges.induct)
  case (single t)
  then show ?case by simp
next
  case (merge n1 n2 M t)
  show ?case
  proof (rule merge.IH, cases "M = {#}")
    case True
    then show "2 \<le> size (add_mset (HuffmanNode (freq n1 + freq n2) (Some n1) (Some n2) None) M)
      \<or> (\<forall>n\<in>#add_mset (HuffmanNode (freq n1 + freq n2) (Some n1) (Some n2) None) M. \<not> is_leaf n)"
      by (simp add: is_leaf_def)
  next
    case False
    then have "1 \<le> size M"
      by (simp add: Suc_le_eq nonempty_has_size)
    then show "2 \<le> size (add_mset (HuffmanNode (freq n1 + freq n2) (Some n1) (Some n2) None) M)
      \<or> (\<forall>n\<in>#add_mset (HuffmanNode (freq n1 + freq n2) (Some n1) (Some n2) None) M. \<not> is_leaf n)"
      by simp
  qed
qed

lemma merges_single_leaf:
  "merges M t \<Longrightarrow> M = {#n#} \<Longrightarrow> t = n"
  by (induction rule: merges.induct) auto

subsection \<open>Counting\<close>

lemma keys_count_char:
  "map fst (count_char cc c) = (if c \<in> set (map fst cc) then map fst cc else map fst cc @ [c])"
  by (induction cc c rule: count_char.induct) auto

lemma set_keys_count_char: "fst ` set (count_char cc c) = insert c (fst ` set cc)"
proof -
  have "set (map fst (count_char cc c)) = insert c (set (map fst cc))"
    unfolding keys_count_char by auto
  then show ?thesis by simp
qed

lemma keys_foldl_count_char:
  "fst ` set (foldl count_char cc cs) = fst ` set cc \<union> set cs"
  by (induction cs arbitrary: cc) (simp_all add: set_keys_count_char)

lemma distinct_foldl_count_char:
  "distinct (map fst cc) \<Longrightarrow> distinct (map fst (foldl count_char cc cs))"
  by (induction cs arbitrary: cc) (auto simp: keys_count_char)

lemma weighted_count_char:
  "(\<Sum>(s, n)\<leftarrow>count_char cc c. n * g s) = (\<Sum>(s, n)\<leftarrow>cc. n * g s) + (g c :: int)"
  by (induction cc c rule: count_char.induct) (auto simp: algebra_simps)

lemma weighted_foldl_count_char:
  "(\<Sum>(s, n)\<leftarrow>foldl count_char cc cs. n * g s) = (\<Sum>(s, n)\<leftarrow>cc. n * g s) + (\<Sum>c\<leftarrow>cs. (g c :: int))"
  by (induction cs arbitrary: cc) (auto simp: weighted_count_char)

lemma foldl_lines:
  "foldl (\<lambda>counts line. foldl count_char counts line) cc file = foldl count_char cc (concat file)"
  by (induction "file" arbitrary: cc) auto

lemma character_counts_concat:
  "character_counts file = foldl count_char [] (concat file)"
  by (simp add: character_counts_def foldl_lines)

lemma keys_character_counts: "fst ` set (character_counts file) = set (concat file)"
  unfolding character_counts_concat keys_foldl_count_char by simp

lemma distinct_character_counts: "distinct (map fst (character_counts file))"
  by (simp add: character_counts_concat distinct_foldl_count_char)

lemma weighted_character_counts:
  "(\<Sum>(s, n)\<leftarrow>character_counts file. n * g s) = (\<Sum>c\<leftarrow>concat file. (g c :: int))"
  by (simp add: character_counts_concat weighted_foldl_count_char)

subsection \<open>The heap of leaves\<close>

lemma mset_foldl_heappush:
  "mset (foldl (\<lambda>counts_heap (char, n).
        heappush counts_heap (HuffmanNode n None None (Some char))) h ps)
     = mset h + image_mset (\<lambda>(char, n). HuffmanNode n None None (Some char)) (mset ps)"
  by (induction ps arbitrary: h) (auto simp: mset_heappush)

lemma mset_get_quantitative_heap:
  "mset (get_quantitative_heap file)
     = image_mset (\<lambda>(char, n). HuffmanNode n None None (Some char)) (mset (character_counts file))"
  by (simp add: get_quantitative_heap_def mset_foldl_heappush)

lemma length_get_quantitative_heap:
  "length (get_quantitative_heap file) = length (character_counts file)"
proof -
  have "size (mset (get_quantitative_heap file)) = size (mset (character_counts file))"
    by (simp add: mset_get_quantitative_heap)
  then show ?thesis by simp
qed

lemma symbols_of_leaves:
  "(\<Sum>n\<in>#image_mset (\<lambda>(char, n). HuffmanNode n None None (Some char)) (mset ps).
      mset (symbols n)) = mset (map fst ps)"
  by (induction ps) auto

lemma freq_of_leaves:
  "sum_mset (image_mset freq
      (image_mset (\<lambda>(char, n). HuffmanNode n None None (Some char)) (mset ps)))
     = (\<Sum>(s, n)\<leftarrow>ps. n * 1)"
  by (induction ps) auto

lemma gen_huffman_tree_Nil [simp]: "gen_huffman_tree [] = Inl IndexError"
  by (subst gen_huffman_tree.simps) simp

lemma tree_of_file:
  assumes "gen_huffman_tree (get_quantitative_heap file) = Inr (t, h)"
  shows "wf_tree t" and "mset (symbols t) = mset (map fst (character_counts file))"
    and "h = []" and "freq t = int (length (concat file))"
    and "2 \<le> length (character_counts file) \<Longrightarrow> \<not> is_leaf t"
    and "length (character_counts file) = 1 \<Longrightarrow> is_leaf t"
proof -
  let ?heap = "get_quantitative_heap file"
  let ?leaf = "\<lambda>(char, n). HuffmanNode n None None (Some char)"
  from assms have "?heap \<noteq> []" by auto
  with gen_huffman_tree_merges [of ?heap] assms
  have m: "merges (mset ?heap) t" and h: "h = []"
    by auto
  show "h = []" by (rule h)
  have "\<forall>n\<in>#mset ?heap. wf_tree n"
    by (auto simp: mset_get_quantitative_heap intro: wf_tree.leaf)
  with m show "wf_tree t" by (rule merges_wf)
  show "mset (symbols t) = mset (map fst (character_counts file))"
    using merges_symbols [OF m] by (simp only: mset_get_quantitative_heap symbols_of_leaves)
  have "freq t = (\<Sum>(s, n)\<leftarrow>character_counts file. n * 1)"
    using merges_freq [OF m] by (simp only: mset_get_quantitative_heap freq_of_leaves)
  also have "\<dots> = (\<Sum>c\<leftarrow>concat file. 1)"
    by (rule weighted_character_counts)
  also have "\<dots> = int (length (concat file))"
    by (simp add: sum_list_triv)
  finally show "freq t = int (length (concat file))" .
  show "\<not> is_leaf t" if "2 \<le> length (character_counts file)"
  proof (rule merges_not_leaf [OF m])
    from that have "2 \<le> size (mset ?heap)"
      by (simp add: length_get_quantitative_heap)
    then show "2 \<le> size (mset ?heap) \<or> (\<forall>n\<in>#mset ?heap. \<not> is_leaf n)" ..
  qed
  show "is_leaf t" if "length (character_counts file) = 1"
  proof -
    from that obtain p where "character_counts file = [p]"
      by (auto simp: length_Suc_conv)
    then have "mset ?heap = {#?leaf p#}"
      by (simp add: mset_get_quantitative_heap)
    with m have "t = ?leaf p" by (rule merges_single_leaf)
    then show ?thesis by (cases p) (simp add: is_leaf_def)
  qed
qed

lemma symbols_of_file:
  assumes "gen_huffman_tree (get_quantitative_heap file) = Inr (t, h)"
  shows "set (symbols t) = set (concat file)" and "distinct (symbols t)"
proof -
  have m: "mset (symbols t) = mset (map fst (character_counts file))"
    using assms by (rule tree_of_file)
  have "set (symbols t) = set (map fst (character_counts file))"
    using m by (rule mset_eq_setD)
  then show "set (symbols t) = set (concat file)"
    by (simp add: keys_character_counts del: set_concat)
  show "distinct (symbols t)"
    using m distinct_character_counts [of "file"] by (metis mset_eq_imp_distinct_iff)
qed

section \<open>Decoding the codes of a tree\<close>

lemma get_next_val_Nil [simp]: "get_next_val [] t = Inr ([], None)"
  by (subst get_next_val.simps) simp

lemma get_next_val_leaf:
  "lines \<noteq> [] \<Longrightarrow> is_leaf t \<Longrightarrow> get_next_val lines (Some t) = Inr (lines, content t)"
  by (subst get_next_val.simps) simp

lemma get_next_val_end:
  "\<not> is_leaf t \<Longrightarrow> get_next_val [[]] (Some t) = Inr ([], None)"
  by (subst get_next_val.simps) simp

lemma get_next_val_0:
  "\<not> is_leaf t \<Longrightarrow> get_next_val [48 # bs] (Some t) = get_next_val [bs] (l_child t)"
  by (subst get_next_val.simps) simp

lemma get_next_val_1:
  "\<not> is_leaf t \<Longrightarrow> get_next_val [49 # bs] (Some t) = get_next_val [bs] (r_child t)"
  by (subst get_next_val.simps) simp

lemma decode_one:
  "wf_tree t \<Longrightarrow> val \<in> set (symbols t) \<Longrightarrow>
     get_next_val [snd (get_huffman_code val t) @ rest] (Some t) = Inr ([rest], Some val)"
proof (induction rule: wf_tree.induct)
  case (leaf f c)
  then show ?case
    by (simp add: get_next_val_leaf is_leaf_def)
next
  case (node lt rt f)
  have inner: "\<not> is_leaf (HuffmanNode f (Some lt) (Some rt) None)"
    by (simp add: is_leaf_def)
  show ?case
  proof (cases "val \<in> set (symbols lt)")
    case True
    with node.IH(1) node.hyps show ?thesis
      by (simp add: contained_iff get_next_val_0 [OF inner])
  next
    case False
    with node.prems have "val \<in> set (symbols rt)" by simp
    with False node.IH(2) node.hyps show ?thesis
      by (simp add: contained_iff get_next_val_1 [OF inner])
  qed
qed

lemma decode_partial:
  "wf_tree t \<Longrightarrow> val \<in> set (symbols t) \<Longrightarrow> strict_prefix p (snd (get_huffman_code val t)) \<Longrightarrow>
     get_next_val [p] (Some t) = Inr ([], None)"
proof (induction arbitrary: p rule: wf_tree.induct)
  case (leaf f c)
  then show ?case by simp
next
  case (node lt rt f)
  have inner: "\<not> is_leaf (HuffmanNode f (Some lt) (Some rt) None)"
    by (simp add: is_leaf_def)
  show ?case
  proof (cases p)
    case Nil
    then show ?thesis by (simp add: get_next_val_end [OF inner])
  next
    case (Cons b p')
    show ?thesis
    proof (cases "val \<in> set (symbols lt)")
      case True
      with node.prems(2) node.hyps Cons
      have "b = 48" and "strict_prefix p' (snd (get_huffman_code val lt))"
        by (simp_all add: contained_iff)
      with True node.IH(1) Cons show ?thesis
        by (simp add: get_next_val_0 [OF inner])
    next
      case False
      with node.prems have r: "val \<in> set (symbols rt)" by simp
      with False node.prems(2) node.hyps Cons
      have "b = 49" and "strict_prefix p' (snd (get_huffman_code val rt))"
        by (simp_all add: contained_iff)
      with r node.IH(2) Cons show ?thesis
        by (simp add: get_next_val_1 [OF inner])
    qed
  qed
qed

lemma decompress_loop_codes:
  assumes "wf_tree t" and "get_next_val [p] (Some t) = Inr (l, None)"
  shows "set S \<subseteq> set (symbols t) \<Longrightarrow>
     decompress_loop t [concat (map (\<lambda>c. snd (get_huffman_code c t)) S) @ p] acc
       = Some (Inr (acc @ S))"
proof (induction S arbitrary: acc)
  case Nil
  with assms(2) show ?case
    by (subst decompress_loop.simps) simp
next
  case (Cons c S)
  then have c: "c \<in> set (symbols t)" and S: "set S \<subseteq> set (symbols t)"
    by simp_all
  let ?rest = "concat (map (\<lambda>c. snd (get_huffman_code c t)) S) @ p"
  have "decompress_loop t [concat (map (\<lambda>c. snd (get_huffman_code c t)) (c # S)) @ p] acc
      = decompress_loop t [?rest] (acc @ [c])"
    using decode_one [OF assms(1) c, of ?rest]
    by (subst decompress_loop.simps) simp
  also have "\<dots> = Some (Inr ((acc @ [c]) @ S))"
    using S by (rule Cons.IH)
  finally show ?case by simp
qed

subsection \<open>What \<^verbatim>\<open>compress_file\<close> returns\<close>

lemma compress_line_Inr:
  "\<forall>c\<in>set line. fst (get_huffman_code c t) \<Longrightarrow>
     compress_line t acc line = Inr (acc @ concat (map (\<lambda>c. snd (get_huffman_code c t)) line))"
  by (induction line arbitrary: acc) (auto split: prod.splits)

lemma compress_line_InrD:
  "compress_line t acc line = Inr out \<Longrightarrow>
     (\<forall>c\<in>set line. fst (get_huffman_code c t))
     \<and> out = acc @ concat (map (\<lambda>c. snd (get_huffman_code c t)) line)"
proof (induction line arbitrary: acc)
  case Nil
  then show ?case by simp
next
  case (Cons c line)
  obtain contained' code where code: "get_huffman_code c t = (contained', code)"
    by (cases "get_huffman_code c t")
  with Cons.prems have c: "contained'" and rest: "compress_line t (acc @ code) line = Inr out"
    by (simp_all split: if_splits)
  from Cons.IH [OF rest] code c show ?case
    by simp
qed

lemma compress_lines_Inr:
  "\<forall>c\<in>set (concat lines). fst (get_huffman_code c t) \<Longrightarrow>
     compress_lines t acc lines
       = Inr (acc @ concat (map (\<lambda>c. snd (get_huffman_code c t)) (concat lines)))"
  by (induction lines arbitrary: acc) (simp_all add: compress_line_Inr)

lemma compress_lines_InrD:
  "compress_lines t acc lines = Inr out \<Longrightarrow>
     (\<forall>c\<in>set (concat lines). fst (get_huffman_code c t))
     \<and> out = acc @ concat (map (\<lambda>c. snd (get_huffman_code c t)) (concat lines))"
proof (induction lines arbitrary: acc)
  case Nil
  then show ?case by simp
next
  case (Cons line lines)
  from Cons.prems obtain acc' where line: "compress_line t acc line = Inr acc'"
    and rest: "compress_lines t acc' lines = Inr out"
    by (auto split: sum.splits)
  from compress_line_InrD [OF line] Cons.IH [OF rest] show ?case
    by auto
qed

subsection \<open>\<^verbatim>\<open>readlines\<close>\<close>

lemma concat_splitlines: "concat (splitlines cur bs) = cur @ bs"
  by (induction bs arbitrary: cur) auto

lemma concat_readlines [simp]: "concat (readlines bs) = bs"
  by (simp add: readlines_def concat_splitlines)

lemma splitlines_one_line:
  "10 \<notin> set bs \<Longrightarrow> splitlines cur bs = (if cur @ bs = [] then [] else [cur @ bs])"
  by (induction bs arbitrary: cur) auto

lemma readlines_one_line:
  "10 \<notin> set bs \<Longrightarrow> readlines bs = (if bs = [] then [] else [bs])"
  by (simp add: readlines_def splitlines_one_line)

section \<open>The pipeline on an input with two or more distinct bytes\<close>

lemma decompress_loop_Nil [simp]: "decompress_loop t [] acc = Some (Inr acc)"
  by (subst decompress_loop.simps) simp

lemma length_character_counts: "length (character_counts file) = card (set (concat file))"
proof -
  have "length (character_counts file) = length (map fst (character_counts file))"
    by simp
  also have "\<dots> = card (set (map fst (character_counts file)))"
    using distinct_character_counts by (rule distinct_card [symmetric])
  also have "\<dots> = card (set (concat file))"
    by (simp add: keys_character_counts del: set_concat)
  finally show ?thesis .
qed

lemma main_compress_InrD:
  assumes "main_compress S = Inr (t, out)"
  shows "wf_tree t" and "set (symbols t) = set S"
    and "out = concat (map (\<lambda>c. snd (get_huffman_code c t)) S)"
    and "2 \<le> card (set S) \<Longrightarrow> \<not> is_leaf t"
    and "card (set S) = 1 \<Longrightarrow> is_leaf t"
proof -
  from assms obtain h where built: "gen_huffman_tree (get_quantitative_heap (readlines S)) = Inr (t, h)"
    and out: "compress_file (readlines S) t = Inr out"
    by (auto simp: main_compress_def Let_def split: sum.splits)
  show "wf_tree t" using built by (rule tree_of_file)
  show "set (symbols t) = set S"
    using symbols_of_file(1) [OF built] by (simp del: set_concat)
  show "out = concat (map (\<lambda>c. snd (get_huffman_code c t)) S)"
    using compress_lines_InrD [of t "[]" "readlines S" out] out
    by (simp add: compress_file_def del: set_concat)
  show "\<not> is_leaf t" if "2 \<le> card (set S)"
    using that tree_of_file(5) [OF built] by (simp add: length_character_counts del: set_concat)
  show "is_leaf t" if "card (set S) = 1"
    using that tree_of_file(6) [OF built] by (simp add: length_character_counts del: set_concat)
qed

lemma main_compress_total:
  assumes "S \<noteq> []"
  shows "\<exists>t out. main_compress S = Inr (t, out)"
proof -
  let ?lines = "readlines S"
  have "length (get_quantitative_heap ?lines) = card (set S)"
    by (simp add: length_get_quantitative_heap length_character_counts del: set_concat)
  moreover have "card (set S) \<noteq> 0"
    using assms by simp
  ultimately have "get_quantitative_heap ?lines \<noteq> []"
    by auto
  then obtain t where built: "gen_huffman_tree (get_quantitative_heap ?lines) = Inr (t, [])"
    using gen_huffman_tree_merges by blast
  have "wf_tree t" using built by (rule tree_of_file)
  moreover have "set (symbols t) = set (concat ?lines)"
    using built by (rule symbols_of_file)
  ultimately have "\<forall>c\<in>set (concat ?lines). fst (get_huffman_code c t)"
    by (simp add: contained_iff del: set_concat)
  then have "compress_file ?lines t
      = Inr ([] @ concat (map (\<lambda>c. snd (get_huffman_code c t)) (concat ?lines)))"
    unfolding compress_file_def by (rule compress_lines_Inr)
  with built show ?thesis
    by (simp add: main_compress_def Let_def)
qed

lemma codes_bits:
  "wf_tree t \<Longrightarrow> set (concat (map (\<lambda>c. snd (get_huffman_code c t)) S)) \<subseteq> {48, 49}"
  using code_bits by fastforce

text \<open>
  Where the pipeline is right: an input with at least two distinct byte values is
  compressed without error, and decoding the compressed bytes with the tree gives the
  input back.
\<close>

lemma roundtrip_two_symbols:
  assumes "main_compress S = Inr (t, out)" and "2 \<le> card (set S)"
  shows "main_decompress t out = Some (Inr S)"
proof -
  note facts = main_compress_InrD [OF assms(1)]
  have wf: "wf_tree t" by (rule facts)
  have inner: "\<not> is_leaf t" using assms(2) by (rule facts)
  have out: "out = concat (map (\<lambda>c. snd (get_huffman_code c t)) S) @ []"
    using facts(3) by simp
  have "10 \<notin> set out"
    using codes_bits [OF wf, of S] facts(3) by auto
  then have lines: "readlines out = (if out = [] then [] else [out])"
    by (rule readlines_one_line)
  have S: "S \<noteq> []" using assms(2) by auto
  then obtain c where c: "c \<in> set S" by (cases S) auto
  then have "snd (get_huffman_code c t) \<noteq> []"
    using wf inner facts(2) by (intro code_nonempty) simp_all
  with c have "out \<noteq> []"
    unfolding facts(3) by auto
  with lines have "main_decompress t out = decompress_loop t [out] []"
    by (simp add: main_decompress_def)
  also have "\<dots> = Some (Inr ([] @ S))"
    unfolding out using wf get_next_val_end [OF inner]
    by (rule decompress_loop_codes) (simp add: facts(2))
  finally show ?thesis by simp
qed

section \<open>More facts about the loops\<close>

lemma decompress_loop_step:
  "get_next_val lines (Some t) = Inr (lines', Some v) \<Longrightarrow>
     decompress_loop t lines acc = decompress_loop t lines' (acc @ [v])"
  by (subst decompress_loop.simps) simp

lemma decompress_loop_stop:
  "get_next_val lines (Some t) = Inr (lines', None) \<Longrightarrow>
     decompress_loop t lines acc = Some (Inr acc)"
  by (subst decompress_loop.simps) simp

lemma int_sum_list_map: "int (sum_list (map f xs)) = (\<Sum>x\<leftarrow>xs. int (f x))"
  by (induction xs) simp_all

lemma strict_prefix_butlast: "xs \<noteq> [] \<Longrightarrow> strict_prefix (butlast xs) xs"
  by (cases xs rule: rev_cases) (auto simp: strict_prefix_def)

lemma gen_huffman_tree_of_file:
  assumes "concat file \<noteq> []"
  shows "\<exists>t. gen_huffman_tree (get_quantitative_heap file) = Inr (t, [])"
proof -
  have "length (get_quantitative_heap file) = card (set (concat file))"
    by (simp add: length_get_quantitative_heap length_character_counts del: set_concat)
  moreover have "card (set (concat file)) \<noteq> 0"
    using assms by (simp del: set_concat)
  ultimately have "get_quantitative_heap file \<noteq> []"
    by auto
  then show ?thesis
    using gen_huffman_tree_merges by blast
qed

lemma leaf_code_empty: "is_leaf t \<Longrightarrow> snd (get_huffman_code val t) = []"
  by (cases t) (simp add: get_huffman_code.simps)

text \<open>
  Where the pipeline is wrong, in general: an input that repeats one byte value is
  compressed to nothing, and nothing is decoded from it.
\<close>

lemma roundtrip_one_symbol:
  assumes "main_compress S = Inr (t, out)" and "card (set S) = 1"
  shows "is_leaf t" and "out = []" and "main_decompress t out = Some (Inr [])"
proof -
  show leaf: "is_leaf t"
    using assms(2) by (rule main_compress_InrD(5) [OF assms(1)])
  show out: "out = []"
    using main_compress_InrD(3) [OF assms(1)] by (simp add: leaf_code_empty [OF leaf])
  show "main_decompress t out = Some (Inr [])"
    by (simp add: out main_decompress_def readlines_def)
qed

section \<open>Construction without ties\<close>







section \<open>The claims\<close>

text \<open>
  Claim C1 (round trip). The claim fails on the code for the inputs with one distinct
  byte value: four bytes \<^verbatim>\<open>a\<close> are compressed, with the tree built from their own counts (a
  single leaf), to the empty payload, and decoding that payload with that tree returns the
  empty sequence, not the input. Lemma \<open>roundtrip_one_symbol\<close> is this for every such
  input, \<open>roundtrip_two_symbols\<close> is the round trip for the inputs with two or more
  distinct byte values.
\<close>

theorem roundtrip_single_symbol_fails:
  "main_compress [97, 97, 97, 97] = Inr (HuffmanNode 4 None None (Some 97), [])
   \<and> main_decompress (HuffmanNode 4 None None (Some 97)) [] = Some (Inr [])
   \<and> [] \<noteq> [97 :: int, 97, 97, 97]"
proof (intro conjI)
  show "main_compress [97, 97, 97, 97] = Inr (HuffmanNode 4 None None (Some 97), [])"
    by code_simp
  show "main_decompress (HuffmanNode 4 None None (Some 97)) [] = Some (Inr [])"
    by (simp add: main_decompress_def readlines_def)
qed simp

text \<open>
  Claim C2 (header), as amended. The output of the encoder is the payload and nothing else:
  for every non-empty input, compression succeeds and the compressed bytes are the codes of
  the input bytes one after the other, every bit of a code written as one byte \<^verbatim>\<open>0\<close> (48) or
  \<^verbatim>\<open>1\<close> (49). There is no marker, no symbol count, no table and no bit count; the tree stays
  in memory.
\<close>

theorem main_compress_payload_only:
  assumes "S \<noteq> []"
  shows "\<exists>t out. main_compress S = Inr (t, out)
     \<and> out = concat (map (\<lambda>c. snd (get_huffman_code c t)) S) \<and> set out \<subseteq> {48, 49}"
proof -
  from assms obtain t out where c: "main_compress S = Inr (t, out)"
    using main_compress_total by blast
  have "out = concat (map (\<lambda>c. snd (get_huffman_code c t)) S)"
    using c by (rule main_compress_InrD)
  moreover have "wf_tree t"
    using c by (rule main_compress_InrD)
  ultimately show ?thesis
    using c codes_bits [of t S] by simp
qed

theorem main_compress_payload_only_witness:
  "[97, 98, 97] \<noteq> ([] :: int list)
   \<and> (\<exists>t out. main_compress [97, 98, 97] = Inr (t, out)
        \<and> out = concat (map (\<lambda>c. snd (get_huffman_code c t)) [97, 98, 97])
        \<and> set out \<subseteq> {48, 49})"
  using main_compress_payload_only [of "[97, 98, 97]"] by simp

text \<open>
  Counterexample to C2 as stated: the two inputs \<^verbatim>\<open>ab\<close> and \<^verbatim>\<open>ba\<close> are compressed to the same
  two bytes \<^verbatim>\<open>01\<close>, which are all that is written; only the trees, which are not written,
  differ. No decoder can rebuild the tree or the input from that output alone.
\<close>

theorem no_header_counterexample:
  "main_compress [97, 98]
     = Inr (HuffmanNode 2 (Some (HuffmanNode 1 None None (Some 97)))
              (Some (HuffmanNode 1 None None (Some 98))) None, [48, 49])
   \<and> main_compress [98, 97]
     = Inr (HuffmanNode 2 (Some (HuffmanNode 1 None None (Some 98)))
              (Some (HuffmanNode 1 None None (Some 97))) None, [48, 49])"
  by code_simp




text \<open>
  Claim C4 (one distinct symbol). No merge occurs and the tree is a single leaf, as
  claimed; but the code of the symbol is the empty byte string, not a single bit: the four
  occurrences are compressed to zero bits.
\<close>

theorem single_symbol_code_empty:
  "gen_huffman_tree (get_quantitative_heap [[97, 97, 97, 97]])
     = Inr (HuffmanNode 4 None None (Some 97), [])
   \<and> is_leaf (HuffmanNode 4 None None (Some 97))
   \<and> get_huffman_code 97 (HuffmanNode 4 None None (Some 97)) = (True, [])
   \<and> compress_file [[97, 97, 97, 97]] (HuffmanNode 4 None None (Some 97)) = Inr []"
  by code_simp

text \<open>
  Claim C5 (prefix-freedom). For two distinct byte values that occur in the input, the tree
  is built without error and the code of the one is not a prefix of the code of the other.
\<close>

theorem codes_prefix_free:
  assumes "a \<in> set (concat file)" and "b \<in> set (concat file)" and "a \<noteq> b"
  shows "\<exists>t. gen_huffman_tree (get_quantitative_heap file) = Inr (t, [])
     \<and> \<not> prefix (snd (get_huffman_code a t)) (snd (get_huffman_code b t))"
proof -
  from assms(1) have "concat file \<noteq> []"
    by (cases "concat file") (simp_all del: set_concat)
  then obtain t where built: "gen_huffman_tree (get_quantitative_heap file) = Inr (t, [])"
    using gen_huffman_tree_of_file by blast
  have "wf_tree t"
    using built by (rule tree_of_file)
  moreover have "set (symbols t) = set (concat file)"
    using built by (rule symbols_of_file)
  ultimately have "\<not> prefix (snd (get_huffman_code a t)) (snd (get_huffman_code b t))"
    using assms by (intro prefix_free) simp_all
  with built show ?thesis by blast
qed

theorem codes_prefix_free_witness:
  "(98 :: int) \<in> set (concat [[97, 98, 97], [99]])
   \<and> (99 :: int) \<in> set (concat [[97, 98, 97], [99]])
   \<and> (98 :: int) \<noteq> 99
   \<and> (\<exists>t. gen_huffman_tree (get_quantitative_heap [[97, 98, 97], [99]]) = Inr (t, [])
        \<and> \<not> prefix (snd (get_huffman_code 98 t)) (snd (get_huffman_code 99 t)))"
  using codes_prefix_free [of 98 "[[97, 98, 97], [99]]" 99] by simp

text \<open>
  Claim C6. On every non-empty heap \<^verbatim>\<open>gen_huffman_tree\<close> returns (the recursion of the model
  is well-founded and the result is not an error) a single root node, and the frequency of
  the root is the sum of the frequencies of all nodes that were in the heap. When the list
  is a heap in the sense of \<^verbatim>\<open>heapq\<close>, as the one \<^verbatim>\<open>get_quantitative_heap\<close> returns is
  (\<open>heap_ok_get_quantitative_heap\<close>), every merge step takes two nodes of minimal frequency and
  makes them the children of a node with the sum of their frequencies.
\<close>

theorem gen_huffman_tree_root_freq:
  assumes "heap \<noteq> []"
  shows "\<exists>t heap'. gen_huffman_tree heap = Inr (t, heap') \<and> freq t = sum_list (map freq heap)
     \<and> (heap_ok heap \<longrightarrow> min_merges (mset heap) t)"
proof -
  from assms obtain t where t: "gen_huffman_tree heap = Inr (t, [])" and m: "merges (mset heap) t"
    using gen_huffman_tree_merges by blast
  have "sum_mset (image_mset freq (mset heap)) = sum_list (map freq heap)"
    by (metis mset_map sum_mset_sum_list)
  with merges_freq [OF m] have "freq t = sum_list (map freq heap)"
    by simp
  moreover have "min_merges (mset heap) t" if "heap_ok heap"
    using gen_huffman_tree_min_merges [OF assms that] t by simp
  ultimately show ?thesis
    using t by blast
qed

theorem gen_huffman_tree_root_freq_witness:
  "[HuffmanNode 1 None None (Some 98), HuffmanNode 2 None None (Some 97),
     HuffmanNode 1 None None (Some 99)] \<noteq> []
   \<and> heap_ok [HuffmanNode 1 None None (Some 98), HuffmanNode 2 None None (Some 97),
     HuffmanNode 1 None None (Some 99)]
   \<and> (\<exists>t heap'. gen_huffman_tree [HuffmanNode 1 None None (Some 98),
          HuffmanNode 2 None None (Some 97), HuffmanNode 1 None None (Some 99)] = Inr (t, heap')
        \<and> freq t = 4
        \<and> min_merges (mset [HuffmanNode 1 None None (Some 98),
          HuffmanNode 2 None None (Some 97), HuffmanNode 1 None None (Some 99)]) t)"
proof -
  let ?heap = "[HuffmanNode 1 None None (Some 98), HuffmanNode 2 None None (Some 97),
     HuffmanNode 1 None None (Some 99)]"
  have ok: "heap_ok ?heap"
    by code_simp
  from ok gen_huffman_tree_root_freq [of ?heap] show ?thesis
    by simp
qed

text \<open>
  Claim C7 (bit count). The compressed bytes are one per bit, so their number is the bit
  count of the payload. Whenever \<^verbatim>\<open>compress_file\<close> returns, with any tree, that number is
  the sum over the entries \<open>(s, n)\<close> of the count table of \<open>n\<close> times the length of the code
  of \<open>s\<close>; said without the table, the sum over the distinct byte values of the input of
  the number of occurrences times the length of the code.
\<close>

theorem payload_bit_count:
  assumes "compress_file file t = Inr out"
  shows "int (length out)
       = (\<Sum>(s, n)\<leftarrow>character_counts file. n * int (length (snd (get_huffman_code s t))))
     \<and> length out
       = (\<Sum>s\<in>set (concat file). count_list (concat file) s * length (snd (get_huffman_code s t)))"
proof -
  let ?code = "\<lambda>c. snd (get_huffman_code c t)"
  have out: "out = concat (map ?code (concat file))"
    using compress_lines_InrD [of t "[]" "file" out] assms by (simp add: compress_file_def)
  then have len: "length out = (\<Sum>c\<leftarrow>concat file. length (?code c))"
    by (simp add: length_concat comp_def)
  then have "int (length out) = (\<Sum>c\<leftarrow>concat file. int (length (?code c)))"
    by (simp add: int_sum_list_map)
  also have "\<dots> = (\<Sum>(s, n)\<leftarrow>character_counts file. n * int (length (?code s)))"
    by (rule weighted_character_counts [symmetric])
  finally have table: "int (length out)
      = (\<Sum>(s, n)\<leftarrow>character_counts file. n * int (length (?code s)))" .
  have "length out = (\<Sum>s\<in>set (concat file). count_list (concat file) s * length (?code s))"
    unfolding len by (rule sum_list_map_eq_sum_count)
  with table show ?thesis by simp
qed

theorem payload_bit_count_witness:
  "compress_file [[97, 98], [97]]
       (HuffmanNode 3 (Some (HuffmanNode 1 None None (Some 98)))
          (Some (HuffmanNode 2 None None (Some 97))) None) = Inr [49, 48, 49]
   \<and> int (length [49, 48, 49 :: int]) = 2 * 1 + 1 * 1"
proof -
  let ?t = "HuffmanNode 3 (Some (HuffmanNode 1 None None (Some 98)))
          (Some (HuffmanNode 2 None None (Some 97))) None"
  have c: "compress_file [[97, 98], [97]] ?t = Inr [49, 48, 49]"
    by code_simp
  have "character_counts [[97, 98], [97]] = [(97, 2), (98, 1)]"
    by (simp add: character_counts_def)
  with c payload_bit_count [OF c, THEN conjunct1] show ?thesis
    by simp
qed

text \<open>
  Claim C8 (empty input). The counts of the empty input are the empty heap, as claimed;
  but nothing short-circuits: the tree builder pops from the empty heap and raises, and
  so does the pipeline.
\<close>

theorem empty_input_raises:
  "get_quantitative_heap (readlines []) = []
   \<and> gen_huffman_tree (get_quantitative_heap (readlines [])) = Inl IndexError
   \<and> main_compress [] = Inl IndexError"
  by code_simp

text \<open>
  Claim C9 (truncation), as amended. Cutting the last byte off the compressed bytes is not
  detected: for an input with two or more distinct byte values, decoding the shortened
  bytes with the same tree ends without an error and returns the input without its last
  byte.
\<close>

theorem truncated_payload_drops_last:
  assumes "2 \<le> card (set (S @ [c]))"
  shows "\<exists>t out. main_compress (S @ [c]) = Inr (t, out)
     \<and> main_decompress t (butlast out) = Some (Inr S)"
proof -
  have "S @ [c] \<noteq> []" by simp
  then obtain t out where compressed: "main_compress (S @ [c]) = Inr (t, out)"
    using main_compress_total by blast
  let ?code = "\<lambda>c. snd (get_huffman_code c t)"
  note facts = main_compress_InrD [OF compressed]
  have wf: "wf_tree t" by (rule facts)
  have inner: "\<not> is_leaf t" using assms by (rule facts)
  have syms: "set (symbols t) = set (S @ [c])" by (rule facts)
  have nonempty: "?code a \<noteq> []" if "a \<in> set (S @ [c])" for a
    using wf inner that syms by (intro code_nonempty) simp_all
  have c: "?code c \<noteq> []"
    by (rule nonempty) simp
  have out: "out = concat (map ?code S) @ ?code c"
    using facts(3) by simp
  with c have trunc: "butlast out = concat (map ?code S) @ butlast (?code c)"
    by (simp add: butlast_append)
  have "strict_prefix (butlast (?code c)) (?code c)"
    using c by (rule strict_prefix_butlast)
  then have stop: "get_next_val [butlast (?code c)] (Some t) = Inr ([], None)"
    by (intro decode_partial [OF wf, of c]) (simp_all add: syms)
  have "S \<noteq> []"
    using assms by (cases S) auto
  then obtain a where a: "a \<in> set S"
    by (cases S) auto
  with nonempty [of a] have "concat (map ?code S) \<noteq> []"
    by auto
  with trunc have nonempty_out: "butlast out \<noteq> []"
    by simp
  have "set (butlast out) \<subseteq> set out"
    by (auto dest: in_set_butlastD)
  moreover have "set out \<subseteq> {48, 49}"
    using codes_bits [OF wf, of "S @ [c]"] facts(3) by simp
  ultimately have "10 \<notin> set (butlast out)"
    by auto
  then have "readlines (butlast out) = [butlast out]"
    using nonempty_out by (simp add: readlines_one_line)
  then have "main_decompress t (butlast out) = decompress_loop t [butlast out] []"
    by (simp add: main_decompress_def)
  also have "\<dots> = Some (Inr ([] @ S))"
    unfolding trunc using wf stop
    by (rule decompress_loop_codes) (auto simp: syms)
  finally show ?thesis
    using compressed by simp
qed

theorem truncated_payload_drops_last_witness:
  "2 \<le> card (set ([97 :: int, 98] @ [98]))
   \<and> (\<exists>t out. main_compress ([97, 98] @ [98]) = Inr (t, out)
        \<and> main_decompress t (butlast out) = Some (Inr [97, 98]))"
  using truncated_payload_drops_last [of "[97, 98]" 98] by simp

text \<open>
  Counterexample to C9 as stated: \<^verbatim>\<open>aabr\<close> is compressed to \<^verbatim>\<open>001011\<close>; without the last
  byte, \<^verbatim>\<open>00101\<close> decodes to \<^verbatim>\<open>aab\<close> and the loop ends normally on the dangling \<^verbatim>\<open>1\<close>: a
  shorter result and no error.
\<close>

theorem truncated_payload_decodes:
  "main_compress [97, 97, 98, 114]
     = Inr (HuffmanNode 4 (Some (HuffmanNode 2 None None (Some 97)))
              (Some (HuffmanNode 2 (Some (HuffmanNode 1 None None (Some 98)))
                 (Some (HuffmanNode 1 None None (Some 114))) None)) None,
            [48, 48, 49, 48, 49, 49])
   \<and> main_decompress
         (HuffmanNode 4 (Some (HuffmanNode 2 None None (Some 97)))
              (Some (HuffmanNode 2 (Some (HuffmanNode 1 None None (Some 98)))
                 (Some (HuffmanNode 1 None None (Some 114))) None)) None)
         (butlast [48, 48, 49, 48, 49, 49])
       = Some (Inr [97, 97, 98])"
proof
  let ?t = "HuffmanNode 4 (Some (HuffmanNode 2 None None (Some 97)))
              (Some (HuffmanNode 2 (Some (HuffmanNode 1 None None (Some 98)))
                 (Some (HuffmanNode 1 None None (Some 114))) None)) None"
  show "main_compress [97, 97, 98, 114] = Inr (?t, [48, 48, 49, 48, 49, 49])"
    by code_simp
  have 1: "get_next_val [[48, 48, 49, 48, 49]] (Some ?t) = Inr ([[48, 49, 48, 49]], Some 97)"
    by code_simp
  have 2: "get_next_val [[48, 49, 48, 49]] (Some ?t) = Inr ([[49, 48, 49]], Some 97)"
    by code_simp
  have 3: "get_next_val [[49, 48, 49]] (Some ?t) = Inr ([[49]], Some 98)"
    by code_simp
  have 4: "get_next_val [[49]] (Some ?t) = Inr ([], None)"
    by code_simp
  have "readlines (butlast [48, 48, 49, 48, 49, 49]) = [[48, 48, 49, 48, 49]]"
    by (simp add: readlines_def)
  then show "main_decompress ?t (butlast [48, 48, 49, 48, 49, 49]) = Some (Inr [97, 97, 98])"
    by (simp add: main_decompress_def decompress_loop_step [OF 1] decompress_loop_step [OF 2]
        decompress_loop_step [OF 3] decompress_loop_stop [OF 4])
qed

text \<open>
  Claim C10. \<^verbatim>\<open>gen_huffman_tree\<close> consumes its argument: when it returns the root of a
  non-empty heap, the caller's list is empty.
\<close>

theorem gen_huffman_tree_consumes_heap:
  "heap \<noteq> [] \<Longrightarrow> \<exists>t. gen_huffman_tree heap = Inr (t, [])"
  using gen_huffman_tree_merges by blast

theorem gen_huffman_tree_consumes_heap_witness:
  "[HuffmanNode 2 None None (Some 97), HuffmanNode 1 None None (Some 98)] \<noteq> []
   \<and> (\<exists>t. gen_huffman_tree [HuffmanNode 2 None None (Some 97),
          HuffmanNode 1 None None (Some 98)] = Inr (t, []))"
  using gen_huffman_tree_consumes_heap [of "[HuffmanNode 2 None None (Some 97),
     HuffmanNode 1 None None (Some 98)]"]
  by simp

end
